theory Spec2Isabelle
  imports Complex_Main
begin

section \<open>Data model of the Futures websocket connection manager\<close>

text \<open>
  JSON values as \<open>json.loads\<close> produces them. A Python \<open>dict\<close> is a finite map from
  keys to values; equality of maps is the order-insensitive equality Python uses for
  dicts. Numbers are kept as integers and compared apart from booleans; the code below
  inspects only strings, lists and the presence of keys.
\<close>

datatype json =
    JNull
  | JBool bool
  | JNum int
  | JStr string
  | JList "json list"
  | JObj "string \<Rightarrow> json option"

type_synonym dict = "string \<Rightarrow> json option"

text \<open>Exceptions that the modelled code raises or lets through.\<close>

datatype error =
    ValueError
  | KeyError
  | AttributeError
  | BinasciiError
  | ConnectionError
  | CancelledError
  | MaxReconnectError

text \<open>
  What a coroutine has done when the scripted environment ends: it returned
  (\<open>Done\<close>), it raised (\<open>Raised\<close>), or it is still suspended in an \<open>await\<close>
  (\<open>Pending\<close>). Each carries the state reached so far.
\<close>

datatype 'a outcome = Done 'a | Raised error 'a | Pending 'a

text \<open>
  Observable effects, in the order they happen: a frame written with \<open>socket.send\<close>,
  a message handed to the application callback, an \<open>asyncio.sleep\<close> (in milliseconds)
  and a call of \<open>websockets.connect\<close>.
\<close>

datatype event =
    Sent dict
  | Delivered dict
  | Slept nat
  | Connecting

text \<open>
  The owning client (\<open>self.__client\<close>): its class is not among the sources, so the
  attributes the connection manager reads are fields here. The feed catalogs are the
  lists returned by \<open>get_available_public_subscription_feeds()\<close> and
  \<open>get_available_private_subscription_feeds()\<close>.
\<close>

record client =
  is_auth :: bool
  key :: string
  secret :: string
  public_feeds :: "string list"
  private_feeds :: "string list"

text \<open>
  Library primitives the code calls (\<open>hashlib\<close>, \<open>hmac\<close>, \<open>base64\<close>, float arithmetic).
  Byte strings are \<open>string\<close>s; \<open>b64decode\<close> raises \<open>binascii.Error\<close> on bad padding.
  \<open>fl\<close> is the rounding of a real result to a float.
\<close>

datatype digestmod = SHA256 | SHA512

record lib =
  hash :: "digestmod \<Rightarrow> string \<Rightarrow> string"
  hmac :: "digestmod \<Rightarrow> string \<Rightarrow> string \<Rightarrow> string"
  b64encode :: "string \<Rightarrow> string"
  b64decode :: "string \<Rightarrow> error + string"
  fl :: "real \<Rightarrow> real"

text \<open>
  The fields of \<open>ConnectFuturesWebsocket\<close>. \<open>last_challenge\<close> holds whatever JSON value
  the server put under \<open>"message"\<close>; \<open>None\<close> is Python's \<open>None\<close>. \<open>socket\<close> tells whether
  \<open>self.__socket\<close> is set. \<open>exception_occur\<close> is the flag of the owning client.
  \<open>receiving\<close> is the control point of the \<open>__run\<close> task (inside its receive loop or
  not) and \<open>trace\<close> collects the observable effects; neither is read by the code.
\<close>

record conn =
  reconnect_num :: nat
  last_challenge :: "json option"
  new_challenge :: "string option"
  challenge_ready :: bool
  socket :: bool
  subscriptions :: "dict list"
  exception_occur :: bool
  receiving :: bool
  trace :: "event list"

definition MAX_RECONNECT_NUM :: nat where
  "MAX_RECONNECT_NUM = 2"

text \<open>The state \<open>__init__\<close> builds, before \<open>__run_forever\<close> is scheduled.\<close>

definition init :: conn where
  "init = \<lparr>reconnect_num = 0, last_challenge = None, new_challenge = None,
     challenge_ready = False, socket = False, subscriptions = [],
     exception_occur = False, receiving = False, trace = []\<rparr>"

definition log :: "event \<Rightarrow> conn \<Rightarrow> conn" where
  "log e st = st\<lparr>trace := trace st @ [e]\<rparr>"

section \<open>Challenge signature\<close>

text \<open>
  \<open>hashlib.sha256()\<close> returns an object that accumulates the bytes passed to
  \<open>update\<close>; \<open>digest\<close> hashes what was accumulated.
\<close>

definition sha256_new :: string where
  "sha256_new = []"

definition hash_update :: "string \<Rightarrow> string \<Rightarrow> string" where
  "hash_update h bs = h @ bs"

definition sha256_digest :: "lib \<Rightarrow> string \<Rightarrow> string" where
  "sha256_digest l h = hash l SHA256 h"

text \<open>
  \<open>_get_sign_challenge(self, challenge)\<close>. Strings are byte strings already, so
  \<open>encode('utf8')\<close> and \<open>decode('utf-8')\<close> do not change them.
\<close>

definition get_sign_challenge :: "lib \<Rightarrow> client \<Rightarrow> string \<Rightarrow> error + string" where
  "get_sign_challenge l c challenge =
     (let sha256_hash = hash_update sha256_new challenge in
      case b64decode l (secret c) of
        Inl e \<Rightarrow> Inl e
      | Inr k \<Rightarrow> Inr (b64encode l (hmac l SHA512 k (sha256_digest l sha256_hash))))"

text \<open>
  The formula of the specification, written from its words:
  base64(HMAC-SHA512(base64-decode(secret), SHA256(nonce))).
\<close>

definition spec_signed_challenge :: "lib \<Rightarrow> string \<Rightarrow> string \<Rightarrow> error + string" where
  "spec_signed_challenge l sec nonce =
     map_sum id (\<lambda>secretKeyBytes. b64encode l (hmac l SHA512 secretKeyBytes (hash l SHA256 nonce)))
       (b64decode l sec)"

section \<open>Backoff policy\<close>

text \<open>Python's \<open>round\<close> on a float: to the nearest integer, ties to the even one.\<close>

definition py_round :: "real \<Rightarrow> int" where
  "py_round x =
     (let f = \<lfloor>x\<rfloor>; d = x - of_int f in
      if d < 1 / 2 then f
      else if 1 / 2 < d then f + 1
      else if even f then f else f + 1)"

text \<open>
  \<open>__get_reconnect_wait(attempts)\<close>, with the value \<open>r\<close> that \<open>random()\<close> returned.
  The product and the sum are float operations, each rounded by \<open>fl\<close>.
\<close>

definition get_reconnect_wait :: "lib \<Rightarrow> real \<Rightarrow> nat \<Rightarrow> int" where
  "get_reconnect_wait l r attempts =
     py_round (fl l (fl l (r * of_int (min (60 * 3) (2 ^ attempts - 1))) + 1))"

section \<open>Subscription registry\<close>

definition in_catalog :: "json \<Rightarrow> string list \<Rightarrow> bool" where
  "in_catalog v feeds = (case v of JStr f \<Rightarrow> f \<in> set feeds | _ \<Rightarrow> False)"

text \<open>\<open>__build_subscription(subscription)\<close>.\<close>

definition build_subscription :: "client \<Rightarrow> dict \<Rightarrow> error + dict" where
  "build_subscription c subscription =
     (let sub = [''event'' \<mapsto> JStr ''subscribe''] in
      case subscription ''event'' of
        None \<Rightarrow> Inl ValueError
      | Some ev \<Rightarrow>
          if ev \<notin> set [JStr ''subscribed'', JStr ''unsubscribed''] then Inl ValueError
          else case subscription ''feed'' of
            None \<Rightarrow> Inl ValueError
          | Some feed \<Rightarrow>
              if in_catalog feed (public_feeds c) then
                (let sub1 =
                   (case subscription ''product_ids'' of
                      None \<Rightarrow> sub
                    | Some (JList ps) \<Rightarrow> sub(''product_ids'' \<mapsto> JList ps)
                    | Some p \<Rightarrow> sub(''product_ids'' \<mapsto> JList [p]))
                 in Inr (sub1(''feed'' \<mapsto> feed)))
              else if in_catalog feed (private_feeds c) then Inr (sub(''feed'' \<mapsto> feed))
              else Inr sub)"

text \<open>\<open>__remove_subscription(msg)\<close>: nothing is assigned when the build raises.\<close>

definition remove_subscription :: "client \<Rightarrow> conn \<Rightarrow> dict \<Rightarrow> error + conn" where
  "remove_subscription c st msg =
     (case build_subscription c msg of
        Inl e \<Rightarrow> Inl e
      | Inr sub \<Rightarrow> Inr (st\<lparr>subscriptions := filter (\<lambda>x. x \<noteq> sub) (subscriptions st)\<rparr>))"

text \<open>\<open>__append_subscription(msg)\<close>.\<close>

definition append_subscription :: "client \<Rightarrow> conn \<Rightarrow> dict \<Rightarrow> error + conn" where
  "append_subscription c st msg =
     (case remove_subscription c st msg of
        Inl e \<Rightarrow> Inl e
      | Inr st1 \<Rightarrow>
          (case build_subscription c msg of
             Inl e \<Rightarrow> Inl e
           | Inr sub \<Rightarrow> Inr (st1\<lparr>subscriptions := subscriptions st1 @ [sub]\<rparr>)))"

text \<open>
  A sequence of acknowledgements applied to the registry. The registry outlives the
  connection on which an acknowledgement raised, so a raising call leaves it as it was
  and the next call works on the same list.
\<close>

datatype ack = Add dict | Remove dict

definition apply_ack :: "client \<Rightarrow> conn \<Rightarrow> ack \<Rightarrow> conn" where
  "apply_ack c st a =
     (case a of
        Add msg \<Rightarrow> (case append_subscription c st msg of Inl e \<Rightarrow> st | Inr st' \<Rightarrow> st')
      | Remove msg \<Rightarrow> (case remove_subscription c st msg of Inl e \<Rightarrow> st | Inr st' \<Rightarrow> st'))"

definition apply_acks :: "client \<Rightarrow> conn \<Rightarrow> ack list \<Rightarrow> conn" where
  "apply_acks c st acks = foldl (apply_ack c) st acks"

section \<open>Receive loop\<close>

text \<open>
  \<open>__handle_new_challenge(msg)\<close>. The nonce is stored before it is signed, so a signing
  that raises leaves the new nonce beside the old signature. \<open>encode\<close> exists on strings
  only.
\<close>

definition handle_new_challenge :: "lib \<Rightarrow> client \<Rightarrow> conn \<Rightarrow> dict \<Rightarrow> conn outcome" where
  "handle_new_challenge l c st msg =
     (case msg ''message'' of
        None \<Rightarrow> Raised KeyError st
      | Some m \<Rightarrow>
          (let st1 = st\<lparr>last_challenge := Some m\<rparr> in
           case m of
             JStr nonce \<Rightarrow>
               (case get_sign_challenge l c nonce of
                  Inl e \<Rightarrow> Raised e st1
                | Inr s \<Rightarrow> Done (st1\<lparr>new_challenge := Some s, challenge_ready := True\<rparr>))
           | _ \<Rightarrow> Raised AttributeError st1))"

text \<open>
  What one \<open>await socket.recv()\<close> of the receive loop yields: the 15 s timeout, a
  cancellation of the task, a transport failure, a text that \<open>json.loads\<close> rejects, or a
  text that parses to the given object (the source types the parsed frame as \<open>dict\<close>).
\<close>

datatype inbound =
    RecvTimeout
  | RecvCancelled
  | RecvFailed
  | NotJson string
  | Json dict

definition cancelled_notice :: dict where
  "cancelled_notice = [''error'' \<mapsto> JStr ''asyncio.CancelledError'']"

text \<open>
  The body of the receive loop for a parsed frame. \<open>forward\<close> is cleared in the
  challenge branch only, so every other branch that returns ends in the callback.
\<close>

definition on_message :: "lib \<Rightarrow> client \<Rightarrow> conn \<Rightarrow> dict \<Rightarrow> conn outcome" where
  "on_message l c st msg =
     (case msg ''event'' of
        None \<Rightarrow> Done (log (Delivered msg) st)
      | Some ev \<Rightarrow>
          if ev = JStr ''challenge'' \<and> msg ''message'' \<noteq> None then
            handle_new_challenge l c st msg
          else if ev = JStr ''subscribed'' then
            (case append_subscription c st msg of
               Inl e \<Rightarrow> Raised e st
             | Inr st' \<Rightarrow> Done (log (Delivered msg) st'))
          else if ev = JStr ''unsubscribed'' then
            (case remove_subscription c st msg of
               Inl e \<Rightarrow> Raised e st
             | Inr st' \<Rightarrow> Done (log (Delivered msg) st'))
          else Done (log (Delivered msg) st))"

text \<open>
  One turn of \<open>while keep_alive\<close>: \<open>Pending\<close> when the loop goes on to the next
  \<open>recv\<close>, \<open>Done\<close> when \<open>keep_alive\<close> was cleared, \<open>Raised\<close> when an exception leaves
  \<open>__run\<close>.
\<close>

definition on_recv :: "lib \<Rightarrow> client \<Rightarrow> conn \<Rightarrow> inbound \<Rightarrow> conn outcome" where
  "on_recv l c st x =
     (case x of
        RecvTimeout \<Rightarrow> Pending st
      | RecvCancelled \<Rightarrow> Done (log (Delivered cancelled_notice) st)
      | RecvFailed \<Rightarrow> Raised ConnectionError st
      | NotJson s \<Rightarrow> Pending st
      | Json msg \<Rightarrow> (case on_message l c st msg of Done st' \<Rightarrow> Pending st' | r \<Rightarrow> r))"

fun run_loop :: "lib \<Rightarrow> client \<Rightarrow> conn \<Rightarrow> inbound list \<Rightarrow> conn outcome" where
  "run_loop l c st [] = Pending st"
| "run_loop l c st (x # xs) =
     (case on_recv l c st x of Pending st' \<Rightarrow> run_loop l c st' xs | r \<Rightarrow> r)"

text \<open>\<open>__run\<close> up to \<open>websockets.connect\<close>, and from the opened socket to the loop.\<close>

definition run_begin :: "conn \<Rightarrow> conn" where
  "run_begin st = log Connecting (st\<lparr>new_challenge := None, last_challenge := None\<rparr>)"

definition run_opened :: "conn \<Rightarrow> conn" where
  "run_opened st = st\<lparr>socket := True, receiving := True, reconnect_num := 0\<rparr>"

text \<open>
  What the receive loop does while another task sleeps once: it handles the frames of
  one tick. The flag tells that the loop raised, which makes \<open>__reconnect\<close> cancel the
  sleeping replay task.
\<close>

definition receive :: "lib \<Rightarrow> client \<Rightarrow> inbound list \<Rightarrow> conn \<Rightarrow> conn \<times> bool" where
  "receive l c tick st =
     (if receiving st then
        (case run_loop l c st tick of
           Pending st' \<Rightarrow> (st', False)
         | Done st' \<Rightarrow> (st'\<lparr>receiving := False\<rparr>, False)
         | Raised e st' \<Rightarrow> (st'\<lparr>receiving := False\<rparr>, True))
      else (st, False))"

section \<open>Sending\<close>

text \<open>
  Tasks are scheduled cooperatively: the others run only while this one sleeps. A
  schedule lists, for each sleep in turn, a tick; \<open>bg\<close> is what the other tasks do to the
  state during the sleep of that tick, and whether they cancel the sleeper. A loop
  \<open>while not cond: await asyncio.sleep(ms)\<close> is still pending when the schedule ends
  before the condition holds.
\<close>

fun poll :: "('t \<Rightarrow> conn \<Rightarrow> conn \<times> bool) \<Rightarrow> nat \<Rightarrow> (conn \<Rightarrow> bool) \<Rightarrow> conn \<Rightarrow> 't list
    \<Rightarrow> (conn \<times> 't list) outcome" where
  "poll bg ms cond st [] =
     (if cond st then Done (st, []) else Pending (log (Slept ms) st, []))"
| "poll bg ms cond st (t # ts) =
     (if cond st then Done (st, t # ts)
      else case bg t (log (Slept ms) st) of
        (st', cancelled) \<Rightarrow>
          if cancelled then Raised CancelledError (st', ts) else poll bg ms cond st' ts)"

definition challenge_request :: "client \<Rightarrow> dict" where
  "challenge_request c = [''event'' \<mapsto> JStr ''challenge'', ''api_key'' \<mapsto> JStr (key c)]"

text \<open>\<open>__check_challenge_ready()\<close>.\<close>

definition check_challenge_ready :: "('t \<Rightarrow> conn \<Rightarrow> conn \<times> bool) \<Rightarrow> client \<Rightarrow> conn \<Rightarrow> 't list
    \<Rightarrow> (conn \<times> 't list) outcome" where
  "check_challenge_ready bg c st ts =
     poll bg 200 challenge_ready (log (Sent (challenge_request c)) st) ts"

definition json_of :: "json option \<Rightarrow> json" where
  "json_of v = (case v of None \<Rightarrow> JNull | Some x \<Rightarrow> x)"

definition with_challenge :: "client \<Rightarrow> conn \<Rightarrow> dict \<Rightarrow> dict" where
  "with_challenge c st msg =
     msg(''api_key'' \<mapsto> JStr (key c),
         ''original_challenge'' \<mapsto> json_of (last_challenge st),
         ''signed_challenge'' \<mapsto> json_of (map_option JStr (new_challenge st)))"

text \<open>\<open>send_message(msg, private)\<close>.\<close>

definition send_message :: "('t \<Rightarrow> conn \<Rightarrow> conn \<times> bool) \<Rightarrow> client \<Rightarrow> conn \<Rightarrow> dict \<Rightarrow> bool
    \<Rightarrow> 't list \<Rightarrow> (conn \<times> 't list) outcome" where
  "send_message bg c st msg private ts =
     (case poll bg 400 socket st ts of
        Done (st1, ts1) \<Rightarrow>
          if private then
            if \<not> is_auth c then Raised ValueError (st1, ts1)
            else
              (case (if \<not> challenge_ready st1 then check_challenge_ready bg c st1 ts1
                     else Done (st1, ts1)) of
                 Done (st2, ts2) \<Rightarrow> Done (log (Sent (with_challenge c st2 msg)) st2, ts2)
               | r \<Rightarrow> r)
          else Done (log (Sent msg) st1, ts1)
      | r \<Rightarrow> r)"

section \<open>Replay of the registry\<close>

text \<open>
  The \<open>for\<close> loop of \<open>__recover_subscription_req_msg\<close>. It walks the list object that
  was the registry when the loop started.
\<close>

fun recover_loop :: "('t \<Rightarrow> conn \<Rightarrow> conn \<times> bool) \<Rightarrow> client \<Rightarrow> conn \<Rightarrow> dict list \<Rightarrow> 't list
    \<Rightarrow> (conn \<times> 't list) outcome" where
  "recover_loop bg c st [] ts = Done (st, ts)"
| "recover_loop bg c st (sub # subs) ts =
     (case sub ''feed'' of
        None \<Rightarrow> Raised KeyError (st, ts)
      | Some feed \<Rightarrow>
          if in_catalog feed (private_feeds c) then
            (case send_message bg c st sub True ts of
               Done (st', ts') \<Rightarrow> recover_loop bg c st' subs ts'
             | r \<Rightarrow> r)
          else if in_catalog feed (public_feeds c) then
            (case send_message bg c st sub False ts of
               Done (st', ts') \<Rightarrow> recover_loop bg c st' subs ts'
             | r \<Rightarrow> r)
          else recover_loop bg c st subs ts)"

text \<open>\<open>__recover_subscription_req_msg(event)\<close>, from the moment \<open>event.wait()\<close> returns.\<close>

definition recover_subscription_req_msg :: "('t \<Rightarrow> conn \<Rightarrow> conn \<times> bool) \<Rightarrow> client \<Rightarrow> conn
    \<Rightarrow> 't list \<Rightarrow> (conn \<times> 't list) outcome" where
  "recover_subscription_req_msg bg c st ts = recover_loop bg c st (subscriptions st) ts"

section \<open>Reconnect loop\<close>

text \<open>
  The script of one connection attempt: the value \<open>random()\<close> returns for the backoff,
  and whether \<open>websockets.connect\<close> raises or opens a socket that then yields the given
  ticks of frames.
\<close>

datatype link = Refused | Accepted "inbound list list"

record script =
  draw :: real
  link :: link

text \<open>
  The notice \<open>__reconnect\<close> sends for a task that raised; its text holds the task and
  its stack in the source and is shortened here.
\<close>

definition task_failed :: dict where
  "task_failed = [''error'' \<mapsto> JStr ''task got an exception'']"

definition max_reconnect_notice :: dict where
  "max_reconnect_notice =
     [''error'' \<mapsto> JStr ''kraken.exceptions.KrakenException.MaxReconnectError'']"

text \<open>
  \<open>__reconnect()\<close>. The replay task waits for the event that \<open>__run\<close> sets on an opened
  socket; it then runs until it sleeps, and the receive loop handles one tick during
  each of its sleeps and the remaining ticks after it. Whichever task raises first ends
  the attempt: the other is cancelled and the notice is sent. A replay cancelled in its
  sleep raises \<open>CancelledError\<close> there. A receive loop cancelled because the replay
  raised delivers its own notice from its handler; that happens when \<open>__reconnect\<close>
  next yields and is placed here right after the notice of the failed task. A receive
  loop that returns after a cancellation leaves \<open>__reconnect\<close> waiting for ever.
\<close>

definition reconnect :: "lib \<Rightarrow> client \<Rightarrow> conn \<Rightarrow> script option \<Rightarrow> conn outcome" where
  "reconnect l c st s =
     (let st1 = st\<lparr>reconnect_num := reconnect_num st + 1\<rparr> in
      if MAX_RECONNECT_NUM \<le> reconnect_num st1 then Raised MaxReconnectError st1
      else case s of
        None \<Rightarrow> Pending st1
      | Some sc \<Rightarrow>
          (let reconnect_wait = get_reconnect_wait l (draw sc) (reconnect_num st1);
               st2 = log (Slept (1000 * nat reconnect_wait)) st1;
               st3 = run_begin st2
           in case link sc of
             Refused \<Rightarrow> Done (log (Delivered task_failed) st3)
           | Accepted ticks \<Rightarrow>
               (case recover_subscription_req_msg (receive l c) c (run_opened st3) ticks of
                  Done (st5, rest) \<Rightarrow>
                    (case receive l c (concat rest) st5 of
                       (st6, crashed) \<Rightarrow>
                         if crashed then Done (log (Delivered task_failed) st6)
                         else Pending st6)
                | Pending (st5, rest) \<Rightarrow> Pending st5
                | Raised e (st5, rest) \<Rightarrow>
                    if e = CancelledError then Done (log (Delivered task_failed) st5)
                    else if receiving st5
                      then Done (log (Delivered cancelled_notice)
                                   (log (Delivered task_failed) (st5\<lparr>receiving := False\<rparr>)))
                      else Done (log (Delivered task_failed) st5))))"

text \<open>The \<open>except\<close> and \<open>finally\<close> clauses of \<open>__run_forever\<close>.\<close>

definition finish :: "conn outcome \<Rightarrow> conn outcome" where
  "finish r =
     (case r of
        Raised e st \<Rightarrow>
          if e = MaxReconnectError
          then Done ((log (Delivered max_reconnect_notice) st)\<lparr>exception_occur := True\<rparr>)
          else Done (st\<lparr>exception_occur := True\<rparr>)
      | Done st \<Rightarrow> Pending st
      | Pending st \<Rightarrow> Pending st)"

text \<open>
  \<open>__run_forever()\<close> over the scripts of the attempts to come. When the scripts are
  used up and a further attempt starts, the loop is pending in its backoff sleep.
\<close>

fun run_forever :: "lib \<Rightarrow> client \<Rightarrow> conn \<Rightarrow> script list \<Rightarrow> conn outcome" where
  "run_forever l c st [] = finish (reconnect l c st None)"
| "run_forever l c st (s # ss) =
     (case reconnect l c st (Some s) of
        Done st' \<Rightarrow> run_forever l c st' ss
      | r \<Rightarrow> finish r)"

section \<open>Observations on outcomes and traces\<close>

definition state_of :: "'a outcome \<Rightarrow> 'a" where
  "state_of r = (case r of Done s \<Rightarrow> s | Raised e s \<Rightarrow> s | Pending s \<Rightarrow> s)"




text \<open>The frames written to the socket and the sleeps, in order.\<close>

fun sent_of :: "event \<Rightarrow> dict list" where
  "sent_of (Sent m) = [m]"
| "sent_of _ = []"

definition sends :: "event list \<Rightarrow> dict list" where
  "sends tr = concat (map sent_of tr)"

fun slept_of :: "event \<Rightarrow> nat list" where
  "slept_of (Slept ms) = [ms]"
| "slept_of _ = []"

definition sleeps :: "event list \<Rightarrow> nat list" where
  "sleeps tr = concat (map slept_of tr)"

text \<open>
  The written frames that carry a feed (a challenge request carries none), a frame
  without the three fields of the private path, and what it means that a frame re-sends a
  registry entry: through the private path when the feed of the entry is in the private
  catalog (the entry with the api key and both challenge fields attached), and as it is
  stored otherwise.
\<close>

definition feed_msgs :: "event list \<Rightarrow> dict list" where
  "feed_msgs tr = filter (\<lambda>m. m ''feed'' \<noteq> None) (sends tr)"

definition drop_auth :: "dict \<Rightarrow> dict" where
  "drop_auth m = m(''api_key'' := None, ''original_challenge'' := None,
     ''signed_challenge'' := None)"

definition resent :: "client \<Rightarrow> dict \<Rightarrow> dict \<Rightarrow> bool" where
  "resent c sub m =
     (case sub ''feed'' of
        None \<Rightarrow> False
      | Some f \<Rightarrow>
          if in_catalog f (private_feeds c)
          then drop_auth m = drop_auth sub \<and> m ''api_key'' = Some (JStr (key c))
               \<and> m ''original_challenge'' \<noteq> None \<and> m ''signed_challenge'' \<noteq> None
          else m = sub)"

text \<open>
  A step that changes the trace by deliveries only and leaves the socket field, as the
  receive loop does.
\<close>

definition quiet :: "conn \<Rightarrow> conn \<Rightarrow> bool" where
  "quiet st st' = ((\<exists>ds. trace st' = trace st @ map Delivered ds) \<and> socket st' = socket st)"

text \<open>
  The challenge fields are unchanged; the challenge fields hold a nonce with its
  signature and the readiness flag; the nonces of the challenge frames among what was
  received.
\<close>

definition same_challenge :: "conn \<Rightarrow> conn \<Rightarrow> bool" where
  "same_challenge st st' =
     (last_challenge st' = last_challenge st \<and> new_challenge st' = new_challenge st
      \<and> challenge_ready st' = challenge_ready st)"

definition signed_by :: "lib \<Rightarrow> client \<Rightarrow> conn \<Rightarrow> string \<Rightarrow> bool" where
  "signed_by l c st nonce =
     (challenge_ready st \<and> last_challenge st = Some (JStr nonce)
      \<and> map_option Inr (new_challenge st) = Some (get_sign_challenge l c nonce))"

fun nonce_of :: "inbound \<Rightarrow> string list" where
  "nonce_of (Json m) =
     (if m ''event'' = Some (JStr ''challenge'')
      then (case m ''message'' of Some (JStr n) \<Rightarrow> [n] | _ \<Rightarrow> []) else [])"
| "nonce_of _ = []"

definition nonces :: "inbound list \<Rightarrow> string list" where
  "nonces xs = concat (map nonce_of xs)"

text \<open>
  The state in which the receive loop of an attempt starts: counter incremented, backoff
  slept, \<open>__run\<close> begun and the socket opened.
\<close>

definition opened :: "lib \<Rightarrow> conn \<Rightarrow> script \<Rightarrow> conn" where
  "opened l st sc =
     run_opened (run_begin (log (Slept (1000 * nat (get_reconnect_wait l (draw sc)
       (reconnect_num st + 1)))) (st\<lparr>reconnect_num := reconnect_num st + 1\<rparr>)))"


section \<open>Concrete inputs\<close>

text \<open>
  A library whose primitives are easy to follow by hand (exact arithmetic, a decoder
  that rejects the empty string), a client with one public and one private feed, and
  the acknowledgement of the ticker scenario with the registry entry built from it.
\<close>

definition lib0 :: lib where
  "lib0 = \<lparr>hash = (\<lambda>d s. s), hmac = (\<lambda>d k m. k @ m), b64encode = (\<lambda>s. s),
     b64decode = (\<lambda>s. if s = [] then Inl BinasciiError else Inr s), fl = (\<lambda>x. x)\<rparr>"

definition c0 :: client where
  "c0 = \<lparr>is_auth = True, key = ''k'', secret = ''s'', public_feeds = [''ticker''],
     private_feeds = [''fills'']\<rparr>"

definition anon :: client where
  "anon = \<lparr>is_auth = False, key = [], secret = [], public_feeds = [''ticker''],
     private_feeds = [''fills'']\<rparr>"


definition ticker_sub :: dict where
  "ticker_sub = [''event'' \<mapsto> JStr ''subscribe'',
     ''product_ids'' \<mapsto> JList [JStr ''PI_XBTUSD''], ''feed'' \<mapsto> JStr ''ticker'']"



definition challenge_frame :: dict where
  "challenge_frame = [''event'' \<mapsto> JStr ''challenge'', ''message'' \<mapsto> JStr ''n'']"


definition book_sub :: dict where
  "book_sub = [''event'' \<mapsto> JStr ''subscribe'', ''feed'' \<mapsto> JStr ''book'']"

text \<open>A private feed, and frames as the private path writes them.\<close>

definition fills_ack :: dict where
  "fills_ack = [''event'' \<mapsto> JStr ''subscribed'', ''feed'' \<mapsto> JStr ''fills'']"

definition fills_sub :: dict where
  "fills_sub = [''event'' \<mapsto> JStr ''subscribe'', ''feed'' \<mapsto> JStr ''fills'']"

definition stale_send :: dict where
  "stale_send = fills_sub(''api_key'' \<mapsto> JStr ''k'', ''original_challenge'' \<mapsto> JNull,
     ''signed_challenge'' \<mapsto> JNull)"

definition signed_send :: dict where
  "signed_send = fills_sub(''api_key'' \<mapsto> JStr ''k'', ''original_challenge'' \<mapsto> JStr ''n'',
     ''signed_challenge'' \<mapsto> JStr ''sn'')"

text \<open>Connections that are open, or about to be opened.\<close>

definition open_conn :: conn where
  "open_conn = init\<lparr>socket := True, receiving := True\<rparr>"

definition replay_conn :: conn where
  "replay_conn = open_conn\<lparr>last_challenge := Some (JStr ''n''), new_challenge := Some ''sn'',
     challenge_ready := True, subscriptions := [ticker_sub, fills_sub]\<rparr>"

definition book_conn :: conn where
  "book_conn = open_conn\<lparr>subscriptions := [book_sub]\<rparr>"

definition anon_conn :: conn where
  "anon_conn = (apply_acks anon init [Add fills_ack])\<lparr>socket := True, receiving := True\<rparr>"



definition replayed :: conn where
  "replayed = log (Sent signed_send) (log (Sent ticker_sub) replay_conn)"

text \<open>Scripts of attempts and the states they lead to.\<close>

definition refused :: script where
  "refused = \<lparr>draw = 1 / 2, link = Refused\<rparr>"


definition first_link :: script where
  "first_link = \<lparr>draw = 1 / 2, link = Accepted [[Json challenge_frame, Json fills_ack, RecvFailed]]\<rparr>"

definition second_link :: script where
  "second_link = \<lparr>draw = 1 / 2, link = Accepted []\<rparr>"



definition after_first :: conn where
  "after_first = log (Delivered task_failed)
     ((log (Delivered fills_ack)
        ((opened lib0 init first_link)\<lparr>last_challenge := Some (JStr ''n''),
           new_challenge := Some ''sn'', challenge_ready := True,
           subscriptions := [fills_sub]\<rparr>))\<lparr>receiving := False\<rparr>)"

definition after_second :: conn where
  "after_second = log (Sent stale_send) (opened lib0 after_first second_link)"


section \<open>Properties of the challenge signature\<close>

text \<open>
  C3. The signed challenge is base64(HMAC-SHA512(key, SHA256(nonce))) with the key the
  base64-decoded secret, for every secret and nonce (a secret that does not decode
  raises in both). The right-hand side takes the secret and the nonce only, so the
  signature is a function of these two alone.
\<close>

theorem sign_challenge_is_spec_formula:
  "get_sign_challenge l c nonce = spec_signed_challenge l (secret c) nonce"
  by (simp add: get_sign_challenge_def spec_signed_challenge_def sha256_new_def
      hash_update_def sha256_digest_def split: sum.splits)

section \<open>Properties of the backoff policy\<close>






section \<open>Properties of the subscription registry\<close>






lemma append_subscription_eq:
  "build_subscription c msg = Inr sub \<Longrightarrow>
   append_subscription c st msg =
     Inr (st\<lparr>subscriptions := filter (\<lambda>x. x \<noteq> sub) (subscriptions st) @ [sub]\<rparr>)"
  by (simp add: append_subscription_def remove_subscription_def)









section \<open>Properties of the receive loop\<close>

lemma handle_new_challenge_trace:
  "trace (state_of (handle_new_challenge l c st msg)) = trace st"
  by (simp add: handle_new_challenge_def Let_def state_of_def
      split: option.splits json.splits sum.splits)

lemma handle_new_challenge_subs:
  "subscriptions (state_of (handle_new_challenge l c st msg)) = subscriptions st"
  by (simp add: handle_new_challenge_def Let_def state_of_def
      split: option.splits json.splits sum.splits)

lemma state_of_continue:
  "state_of (case r of Done st' \<Rightarrow> Pending st' | Raised e s \<Rightarrow> Raised e s | Pending s \<Rightarrow> Pending s)
   = state_of r"
  by (cases r) (simp_all add: state_of_def)







lemma append_subscription_trace:
  "append_subscription c st msg = Inr st' \<Longrightarrow> trace st' = trace st"
  by (auto simp: append_subscription_def remove_subscription_def split: sum.splits)

lemma remove_subscription_trace:
  "remove_subscription c st msg = Inr st' \<Longrightarrow> trace st' = trace st"
  by (auto simp: remove_subscription_def split: sum.splits)


lemma handle_new_challenge_not_pending: "handle_new_challenge l c st msg \<noteq> Pending s"
  by (simp add: handle_new_challenge_def Let_def split: option.splits json.splits sum.splits)

lemma on_message_not_pending: "on_message l c st msg \<noteq> Pending s"
  by (simp add: on_message_def handle_new_challenge_not_pending
      split: option.splits sum.splits)





lemma sign_n: "get_sign_challenge lib0 c0 ''n'' = Inr ''sn''"
  by (simp add: get_sign_challenge_def lib0_def c0_def sha256_new_def hash_update_def
      sha256_digest_def)





section \<open>Properties of sending and of the reconnect loop\<close>

lemma poll_ready: "cond st \<Longrightarrow> poll bg ms cond st ts = Done (st, ts)"
  by (cases ts) simp_all

text \<open>
  C7, as the code has it. A private send on a client without credentials is the wait
  for the socket followed by the \<open>ValueError\<close>: once a socket is set the call raises at
  once, with the state and the schedule as they were, so nothing has been written and
  no sleep has happened. While no socket is set the call sleeps first.
\<close>

theorem private_send_without_credentials:
  assumes "\<not> is_auth c"
  shows "(socket st \<longrightarrow> send_message bg c st msg True ts = Raised ValueError (st, ts))
    \<and> send_message bg c st msg True ts =
        (case poll bg 400 socket st ts of Done x \<Rightarrow> Raised ValueError x | r \<Rightarrow> r)"
proof -
  have 2: "send_message bg c st msg True ts =
        (case poll bg 400 socket st ts of Done x \<Rightarrow> Raised ValueError x | r \<Rightarrow> r)"
    using assms by (simp add: send_message_def split: outcome.splits)
  have 1: "socket st \<longrightarrow> send_message bg c st msg True ts = Raised ValueError (st, ts)"
    by (simp add: 2 poll_ready)
  show ?thesis using 1 2 by (intro conjI)
qed

theorem private_send_without_credentials_witness:
  "\<not> is_auth anon
   \<and> send_message (\<lambda>t s. (s, False)) anon (init\<lparr>socket := True\<rparr>) ticker_sub True [()]
      = Raised ValueError (init\<lparr>socket := True\<rparr>, [()])"
proof -
  have a: "\<not> is_auth anon" by (simp add: anon_def)
  have s: "socket (init\<lparr>socket := True\<rparr>)" by simp
  show ?thesis
    using private_send_without_credentials[OF a, of "init\<lparr>socket := True\<rparr>" "\<lambda>t s. (s, False)" ticker_sub "[()]"] a s
    by simp
qed

theorem unauthenticated_private_send_sleeps_first:
  "\<not> is_auth anon
   \<and> send_message (\<lambda>t s. (s, False)) anon init ticker_sub True [()]
      = Pending (log (Slept 400) (log (Slept 400) init), [])
   \<and> send_message (\<lambda>t s. (run_opened s, False)) anon init ticker_sub True [()]
      = Raised ValueError (run_opened (log (Slept 400) init), [])"
  by (simp add: anon_def send_message_def init_def log_def run_opened_def)




lemma opened_fields:
  "subscriptions (opened l st sc) = subscriptions st" "receiving (opened l st sc)"
  "socket (opened l st sc)" "reconnect_num (opened l st sc) = 0"
  "challenge_ready (opened l st sc) = challenge_ready st"
  "last_challenge (opened l st sc) = None" "new_challenge (opened l st sc) = None"
  by (simp_all add: opened_def run_opened_def run_begin_def log_def)

lemma reconnect_accepted:
  assumes "reconnect_num st = 0" "link sc = Accepted ticks"
  shows "reconnect l c st (Some sc) =
     (case recover_subscription_req_msg (receive l c) c (opened l st sc) ticks of
        Done (st5, rest) \<Rightarrow>
          (case receive l c (concat rest) st5 of
             (st6, crashed) \<Rightarrow>
               if crashed then Done (log (Delivered task_failed) st6) else Pending st6)
      | Pending (st5, rest) \<Rightarrow> Pending st5
      | Raised e (st5, rest) \<Rightarrow>
          if e = CancelledError then Done (log (Delivered task_failed) st5)
          else if receiving st5
            then Done (log (Delivered cancelled_notice)
                         (log (Delivered task_failed) (st5\<lparr>receiving := False\<rparr>)))
            else Done (log (Delivered task_failed) st5))"
  using assms by (simp add: reconnect_def MAX_RECONNECT_NUM_def Let_def opened_def)

lemma reconnect_refused:
  assumes "reconnect_num st = 0" "link sc = Refused"
  shows "reconnect l c st (Some sc) =
     Done (log (Delivered task_failed) (run_begin (log (Slept (1000 * nat (get_reconnect_wait l (draw sc) 1)))
       (st\<lparr>reconnect_num := 1\<rparr>))))"
  using assms by (simp add: reconnect_def MAX_RECONNECT_NUM_def Let_def)

lemma reconnect_ceiling:
  assumes "reconnect_num st = 1"
  shows "reconnect l c st s = Raised MaxReconnectError (st\<lparr>reconnect_num := 2\<rparr>)"
  using assms by (simp add: reconnect_def MAX_RECONNECT_NUM_def Let_def)

lemma run_forever_ceiling:
  assumes "reconnect_num st = 1"
  shows "run_forever l c st ss =
    Done ((log (Delivered max_reconnect_notice) (st\<lparr>reconnect_num := 2\<rparr>))\<lparr>exception_occur := True\<rparr>)"
  by (cases ss) (simp_all add: reconnect_ceiling[OF assms] finish_def)

lemma notices_differ: "task_failed \<noteq> max_reconnect_notice"
proof
  assume "task_failed = max_reconnect_notice"
  then have "task_failed ''error'' = max_reconnect_notice ''error''" by simp
  then show False by (simp add: task_failed_def max_reconnect_notice_def)
qed

text \<open>
  C1. When every connection attempt fails, a run of the reconnect loop that starts
  with the counter at 0 makes one attempt (counter 1), sends the notice of the failed
  task, and on the next turn the counter reaches the ceiling of 2: the terminal notice
  is delivered once, as the last effect, the client is marked as failed, the loop has
  returned and no further \<open>connect\<close> is called. The two notices differ.
\<close>

theorem run_forever_reaches_ceiling:
  assumes z: "reconnect_num st = 0" and ne: "scripts \<noteq> []"
    and fail: "\<forall>s\<in>set scripts. link s = Refused"
  shows "(\<exists>st'. run_forever l c st scripts = Done st'
      \<and> trace st' = trace st @
          [Slept (1000 * nat (get_reconnect_wait l (draw (hd scripts)) 1)), Connecting,
           Delivered task_failed, Delivered max_reconnect_notice]
      \<and> reconnect_num st' = MAX_RECONNECT_NUM \<and> exception_occur st'
      \<and> subscriptions st' = subscriptions st)
    \<and> task_failed \<noteq> max_reconnect_notice"
proof -
  obtain s ss where sc: "scripts = s # ss" using ne by (cases scripts) auto
  have r: "link s = Refused" using fail sc by simp
  define st1 where "st1 = log (Delivered task_failed) (run_begin (log (Slept (1000 * nat (get_reconnect_wait l (draw s) 1)))
       (st\<lparr>reconnect_num := 1\<rparr>)))"
  have n1: "reconnect_num st1 = 1" by (simp add: st1_def log_def run_begin_def)
  have "run_forever l c st scripts = run_forever l c st1 ss"
    by (simp add: sc reconnect_refused[OF z r] st1_def)
  then have e: "run_forever l c st scripts =
     Done ((log (Delivered max_reconnect_notice) (st1\<lparr>reconnect_num := 2\<rparr>))\<lparr>exception_occur := True\<rparr>)"
    by (simp add: run_forever_ceiling[OF n1])
  have "trace ((log (Delivered max_reconnect_notice) (st1\<lparr>reconnect_num := 2\<rparr>))\<lparr>exception_occur := True\<rparr>)
     = trace st @ [Slept (1000 * nat (get_reconnect_wait l (draw (hd scripts)) 1)), Connecting,
           Delivered task_failed, Delivered max_reconnect_notice]"
    by (simp add: st1_def log_def run_begin_def sc)
  moreover have "subscriptions ((log (Delivered max_reconnect_notice) (st1\<lparr>reconnect_num := 2\<rparr>))\<lparr>exception_occur := True\<rparr>)
     = subscriptions st"
    by (simp add: st1_def log_def run_begin_def)
  moreover have "reconnect_num ((log (Delivered max_reconnect_notice) (st1\<lparr>reconnect_num := 2\<rparr>))\<lparr>exception_occur := True\<rparr>)
     = MAX_RECONNECT_NUM"
    by (simp add: log_def MAX_RECONNECT_NUM_def)
  ultimately show ?thesis using e notices_differ by simp
qed

lemma wait_half: "get_reconnect_wait lib0 (1 / 2) 1 = 2"
  by (simp add: get_reconnect_wait_def lib0_def py_round_def)

theorem run_forever_reaches_ceiling_witness:
  "reconnect_num init = 0 \<and> link refused = Refused
   \<and> trace (state_of (run_forever lib0 c0 init [refused, refused]))
       = [Slept 2000, Connecting, Delivered task_failed, Delivered max_reconnect_notice]
   \<and> exception_occur (state_of (run_forever lib0 c0 init [refused, refused]))
   \<and> reconnect_num (state_of (run_forever lib0 c0 init [refused, refused])) = 2"
proof -
  have z: "reconnect_num init = 0" by (simp add: init_def)
  have r: "link refused = Refused" by (simp add: refused_def)
  have f: "\<forall>s\<in>set [refused, refused]. link s = Refused" using r by simp
  have w: "1000 * nat (get_reconnect_wait lib0 (draw (hd [refused, refused])) 1) = 2000"
    using wait_half by (simp add: refused_def)
  have t: "trace init = []" by (simp add: init_def)
  from run_forever_reaches_ceiling[OF z _ f, of lib0 c0] obtain st' where
    A: "run_forever lib0 c0 init [refused, refused] = Done st'" and
    B: "trace st' = trace init @
          [Slept (1000 * nat (get_reconnect_wait lib0 (draw (hd [refused, refused])) 1)), Connecting,
           Delivered task_failed, Delivered max_reconnect_notice]" and
    C: "reconnect_num st' = MAX_RECONNECT_NUM" and D: "exception_occur st'"
    by blast
  have s: "state_of (run_forever lib0 c0 init [refused, refused]) = st'"
    by (simp only: A state_of_def outcome.case)
  have B': "trace st' = [Slept 2000, Connecting, Delivered task_failed, Delivered max_reconnect_notice]"
    by (simp only: B w t append_Nil)
  have C': "reconnect_num st' = 2" by (simp only: C MAX_RECONNECT_NUM_def)
  show ?thesis
    by (simp only: s B' C' D z r)
qed

lemma recover_empty:
  "subscriptions st = [] \<Longrightarrow> recover_subscription_req_msg bg c st ts = Done (st, ts)"
  by (simp add: recover_subscription_req_msg_def)

lemma receive_raised:
  "receiving st \<Longrightarrow> run_loop l c st xs = Raised e st' \<Longrightarrow>
   receive l c xs st = (st'\<lparr>receiving := False\<rparr>, True)"
  by (simp add: receive_def)


section \<open>Challenge state across a reconnect\<close>

lemma build_fills: "build_subscription c0 fills_ack = Inr fills_sub"
  by (simp add: build_subscription_def c0_def fills_ack_def fills_sub_def in_catalog_def)

lemma on_recv_fills_ack:
  "on_recv l c0 st (Json fills_ack) =
      Pending (log (Delivered fills_ack)
        (st\<lparr>subscriptions := filter (\<lambda>x. x \<noteq> fills_sub) (subscriptions st) @ [fills_sub]\<rparr>))"
proof -
  have ev: "fills_ack ''event'' = Some (JStr ''subscribed'')" by (simp add: fills_ack_def)
  show ?thesis
    by (simp add: on_recv_def on_message_def ev append_subscription_eq[OF build_fills])
qed

lemma on_recv_challenge_frame:
  "on_recv lib0 c0 st (Json challenge_frame) =
      Pending (st\<lparr>last_challenge := Some (JStr ''n''), new_challenge := Some ''sn'',
          challenge_ready := True\<rparr>)"
  by (simp add: on_recv_def on_message_def handle_new_challenge_def challenge_frame_def sign_n)

lemma first_attempt: "reconnect lib0 c0 init (Some first_link) = Done after_first"
proof -
  have z: "reconnect_num init = 0" "subscriptions init = []" by (simp_all add: init_def)
  have lk: "link first_link = Accepted [[Json challenge_frame, Json fills_ack, RecvFailed]]"
    by (simp add: first_link_def)
  have e: "subscriptions (opened lib0 init first_link) = []" by (simp add: opened_fields z)
  have r: "run_loop lib0 c0 (opened lib0 init first_link)
      (concat [[Json challenge_frame, Json fills_ack, RecvFailed]])
     = Raised ConnectionError (log (Delivered fills_ack)
        ((opened lib0 init first_link)\<lparr>last_challenge := Some (JStr ''n''),
           new_challenge := Some ''sn'', challenge_ready := True,
           subscriptions := [fills_sub]\<rparr>))"
    by (simp add: on_recv_challenge_frame on_recv_fills_ack e) (simp add: on_recv_def)
  show ?thesis
    by (simp only: reconnect_accepted[OF z(1) lk] recover_empty[OF e] outcome.case prod.case
        receive_raised[OF opened_fields(2) r] if_True after_first_def)
qed

lemma after_first_fields:
  "reconnect_num after_first = 0" "challenge_ready after_first" "socket after_first"
  "subscriptions after_first = [fills_sub]"
  "trace after_first = [Slept 2000, Connecting, Delivered fills_ack, Delivered task_failed]"
proof -
  have w: "nat (get_reconnect_wait lib0 (draw first_link) (Suc 0)) = 2"
    using wait_half by (simp add: first_link_def)
  show "reconnect_num after_first = 0" "challenge_ready after_first" "socket after_first"
    "subscriptions after_first = [fills_sub]"
    by (simp_all add: after_first_def log_def opened_fields)
  show "trace after_first = [Slept 2000, Connecting, Delivered fills_ack, Delivered task_failed]"
    using w by (simp add: after_first_def opened_def log_def run_begin_def run_opened_def init_def)
qed

lemma second_attempt: "reconnect lib0 c0 after_first (Some second_link) = Pending after_second"
proof -
  have lk: "link second_link = Accepted []" by (simp add: second_link_def)
  let ?o = "opened lib0 after_first second_link"
  have f: "fills_sub ''feed'' = Some (JStr ''fills'')" by (simp add: fills_sub_def)
  have p: "in_catalog (JStr ''fills'') (private_feeds c0)" by (simp add: in_catalog_def c0_def)
  have w: "with_challenge c0 ?o fills_sub = stale_send"
    by (simp add: with_challenge_def opened_fields stale_send_def json_of_def c0_def)
  have s: "send_message (receive lib0 c0) c0 ?o fills_sub True [] = Done (log (Sent stale_send) ?o, [])"
    by (simp add: send_message_def opened_fields after_first_fields w) (simp add: c0_def)
  have r: "recover_subscription_req_msg (receive lib0 c0) c0 ?o [] = Done (log (Sent stale_send) ?o, [])"
    by (simp add: recover_subscription_req_msg_def opened_fields after_first_fields f p s)
  have v: "receive lib0 c0 (concat []) (log (Sent stale_send) ?o) = (log (Sent stale_send) ?o, False)"
    by (simp add: receive_def)
  show ?thesis
    by (simp only: reconnect_accepted[OF after_first_fields(1) lk] r outcome.case prod.case v
        if_False after_second_def)
qed

text \<open>
  C9, evaluated on the code. Opening a new socket leaves the registry as it was and
  resets the raw and the signed challenge, but not the readiness flag. In the run below
  the first connection receives a challenge and the acknowledgement of a private feed
  and then fails; on the second connection the replay finds the flag still set, asks for
  no challenge and sends the private subscription with both challenge fields null.
\<close>

theorem readiness_survives_reconnect:
  "subscriptions (opened l st sc) = subscriptions st
   \<and> last_challenge (opened l st sc) = None \<and> new_challenge (opened l st sc) = None
   \<and> challenge_ready (opened l st sc) = challenge_ready st
   \<and> run_forever lib0 c0 init [first_link, second_link] = Pending after_second
   \<and> challenge_ready after_second \<and> last_challenge after_second = None
   \<and> new_challenge after_second = None \<and> subscriptions after_second = [fills_sub]
   \<and> trace after_second =
       [Slept 2000, Connecting, Delivered fills_ack, Delivered task_failed,
        Slept 2000, Connecting, Sent stale_send]
   \<and> stale_send ''original_challenge'' = Some JNull \<and> stale_send ''signed_challenge'' = Some JNull"
proof -
  have c: "reconnect lib0 c0 after_second None = Pending (after_second\<lparr>reconnect_num := 1\<rparr>)"
    by (simp add: reconnect_def after_second_def log_def opened_fields MAX_RECONNECT_NUM_def)
  have 1: "run_forever lib0 c0 init [first_link, second_link] = Pending after_second"
    by (simp add: first_attempt second_attempt finish_def)
  have w: "nat (get_reconnect_wait lib0 (draw second_link) (Suc 0)) = 2"
    using wait_half by (simp add: second_link_def)
  have 2: "trace after_second =
       [Slept 2000, Connecting, Delivered fills_ack, Delivered task_failed,
        Slept 2000, Connecting, Sent stale_send]"
    using w by (simp add: after_second_def opened_def log_def run_begin_def run_opened_def
        after_first_fields)
  have 3: "challenge_ready after_second \<and> last_challenge after_second = None
   \<and> new_challenge after_second = None \<and> subscriptions after_second = [fills_sub]"
    by (simp add: after_second_def log_def opened_fields after_first_fields)
  have 4: "stale_send ''original_challenge'' = Some JNull \<and> stale_send ''signed_challenge'' = Some JNull"
    by (simp add: stale_send_def)
  show ?thesis
    using 1 2 3 4 by (simp add: opened_fields)
qed

section \<open>Properties of the private send and of the replay\<close>

lemma sends_append: "sends (a @ b) = sends a @ sends b"
  by (simp add: sends_def)

lemma sleeps_append: "sleeps (a @ b) = sleeps a @ sleeps b"
  by (simp add: sleeps_def)

lemma sends_delivered: "sends (map Delivered ds) = []"
  by (induction ds) (simp_all add: sends_def)

lemma sleeps_delivered: "sleeps (map Delivered ds) = []"
  by (induction ds) (simp_all add: sleeps_def)

lemma quiet_refl: "quiet st st"
  by (simp add: quiet_def)

lemma quiet_trans: "quiet a b \<Longrightarrow> quiet b d \<Longrightarrow> quiet a d"
proof -
  assume ab: "quiet a b" and bd: "quiet b d"
  from ab obtain ds where 1: "trace b = trace a @ map Delivered ds" "socket b = socket a"
    by (auto simp: quiet_def)
  from bd obtain es where 2: "trace d = trace b @ map Delivered es" "socket d = socket b"
    by (auto simp: quiet_def)
  have "trace d = trace a @ map Delivered (ds @ es)" by (simp add: 1 2)
  then show "quiet a d" unfolding quiet_def using 1 2 by metis
qed

lemma quiet_log: "quiet st (log (Delivered m) st)"
proof -
  have "trace (log (Delivered m) st) = trace st @ map Delivered [m]" by (simp add: log_def)
  moreover have "socket (log (Delivered m) st) = socket st" by (simp add: log_def)
  ultimately show ?thesis unfolding quiet_def by blast
qed

lemma quiet_same: "trace st' = trace st \<Longrightarrow> socket st' = socket st \<Longrightarrow> quiet st st'"
  unfolding quiet_def by (metis append_Nil2 list.simps(8))

lemma handle_new_challenge_socket:
  "socket (state_of (handle_new_challenge l c st msg)) = socket st"
  by (simp add: handle_new_challenge_def Let_def state_of_def
      split: option.splits json.splits sum.splits)

lemma append_subscription_socket:
  "append_subscription c st msg = Inr st' \<Longrightarrow> socket st' = socket st"
  by (auto simp: append_subscription_def remove_subscription_def split: sum.splits)

lemma remove_subscription_socket:
  "remove_subscription c st msg = Inr st' \<Longrightarrow> socket st' = socket st"
  by (auto simp: remove_subscription_def split: sum.splits)

lemma on_message_quiet: "quiet st (state_of (on_message l c st msg))"
proof (cases "msg ''event''")
  case None
  then show ?thesis by (simp add: on_message_def state_of_def quiet_log)
next
  case (Some ev)
  consider (ch) "ev = JStr ''challenge'' \<and> msg ''message'' \<noteq> None"
    | (sub) "\<not> (ev = JStr ''challenge'' \<and> msg ''message'' \<noteq> None)" "ev = JStr ''subscribed''"
    | (unsub) "\<not> (ev = JStr ''challenge'' \<and> msg ''message'' \<noteq> None)" "ev \<noteq> JStr ''subscribed''"
        "ev = JStr ''unsubscribed''"
    | (other) "\<not> (ev = JStr ''challenge'' \<and> msg ''message'' \<noteq> None)" "ev \<noteq> JStr ''subscribed''"
        "ev \<noteq> JStr ''unsubscribed''"
    by blast
  then show ?thesis
  proof cases
    case ch
    then have "on_message l c st msg = handle_new_challenge l c st msg"
      using Some by (simp add: on_message_def)
    then show ?thesis
      by (simp add: quiet_same handle_new_challenge_trace handle_new_challenge_socket)
  next
    case sub
    show ?thesis
    proof (cases "append_subscription c st msg")
      case (Inl e)
      then have "on_message l c st msg = Raised e st"
        using Some sub by (simp add: on_message_def)
      then show ?thesis by (simp add: state_of_def quiet_refl)
    next
      case (Inr st')
      then have "on_message l c st msg = Done (log (Delivered msg) st')"
        using Some sub by (simp add: on_message_def)
      moreover have "quiet st st'"
        using append_subscription_trace[OF Inr] append_subscription_socket[OF Inr]
        by (rule quiet_same)
      ultimately show ?thesis
        using quiet_trans[OF _ quiet_log] by (simp add: state_of_def)
    qed
  next
    case unsub
    show ?thesis
    proof (cases "remove_subscription c st msg")
      case (Inl e)
      then have "on_message l c st msg = Raised e st"
        using Some unsub by (simp add: on_message_def)
      then show ?thesis by (simp add: state_of_def quiet_refl)
    next
      case (Inr st')
      then have "on_message l c st msg = Done (log (Delivered msg) st')"
        using Some unsub by (simp add: on_message_def)
      moreover have "quiet st st'"
        using remove_subscription_trace[OF Inr] remove_subscription_socket[OF Inr]
        by (rule quiet_same)
      ultimately show ?thesis
        using quiet_trans[OF _ quiet_log] by (simp add: state_of_def)
    qed
  next
    case other
    have "on_message l c st msg = Done (log (Delivered msg) st)"
    proof (cases "ev = JStr ''challenge''")
      case True
      then have "msg ''message'' = None" using other(1) by blast
      then show ?thesis using Some True by (simp add: on_message_def)
    next
      case False
      then show ?thesis using Some other(2,3) by (simp add: on_message_def)
    qed
    then show ?thesis by (simp add: state_of_def quiet_log)
  qed
qed

lemma on_recv_quiet: "quiet st (state_of (on_recv l c st x))"
proof (cases x)
  case (Json msg)
  have "state_of (on_recv l c st x) = state_of (on_message l c st msg)"
    using Json by (simp add: on_recv_def state_of_continue)
  then show ?thesis using on_message_quiet[of st l c msg] by simp
next
  case RecvCancelled
  then show ?thesis by (simp add: on_recv_def state_of_def quiet_log)
qed (simp_all add: on_recv_def state_of_def quiet_refl)

lemma run_loop_quiet: "quiet st (state_of (run_loop l c st xs))"
proof (induction xs arbitrary: st)
  case Nil
  then show ?case by (simp add: state_of_def quiet_refl)
next
  case (Cons x xs)
  show ?case
  proof (cases "on_recv l c st x")
    case (Pending s)
    then have "quiet st s" using on_recv_quiet[of st l c x] by (simp add: state_of_def)
    then show ?thesis using Pending Cons.IH[of s] quiet_trans by simp
  next
    case (Done s)
    then show ?thesis using on_recv_quiet[of st l c x] by simp
  next
    case (Raised e s)
    then show ?thesis using on_recv_quiet[of st l c x] by simp
  qed
qed

lemma quiet_receiving: "quiet st st' \<Longrightarrow> quiet st (st'\<lparr>receiving := b\<rparr>)"
  by (simp add: quiet_def)

lemma receive_quiet: "quiet st (fst (receive l c t st))"
proof (cases "receiving st")
  case False
  then show ?thesis by (simp add: receive_def quiet_refl)
next
  case True
  then show ?thesis
    using run_loop_quiet[of st l c t]
    by (cases "run_loop l c st t") (simp_all add: receive_def state_of_def quiet_receiving)
qed

lemma quiet_sends: "quiet st st' \<Longrightarrow> sends (trace st') = sends (trace st)"
  by (auto simp: quiet_def sends_append sends_delivered)

lemma quiet_sleeps: "quiet st st' \<Longrightarrow> sleeps (trace st') = sleeps (trace st)"
  by (auto simp: quiet_def sleeps_append sleeps_delivered)

lemma quiet_socket: "quiet st st' \<Longrightarrow> socket st' = socket st"
  by (simp add: quiet_def)

lemma same_refl: "same_challenge st st"
  by (simp add: same_challenge_def)

lemma same_trans: "same_challenge a b \<Longrightarrow> same_challenge b d \<Longrightarrow> same_challenge a d"
  by (simp add: same_challenge_def)

lemma same_log: "same_challenge st (log e st)"
  by (simp add: same_challenge_def log_def)

lemma same_receiving: "same_challenge st st' \<Longrightarrow> same_challenge st (st'\<lparr>receiving := b\<rparr>)"
  by (simp add: same_challenge_def)

lemma signed_receiving: "signed_by l c st' n \<Longrightarrow> signed_by l c (st'\<lparr>receiving := b\<rparr>) n"
  by (simp add: signed_by_def)

lemma signed_same: "same_challenge a b \<Longrightarrow> signed_by l c a n \<Longrightarrow> signed_by l c b n"
  by (simp add: same_challenge_def signed_by_def)

lemma append_subscription_same:
  "append_subscription c st msg = Inr st' \<Longrightarrow> same_challenge st st'"
  by (auto simp: append_subscription_def remove_subscription_def same_challenge_def
      split: sum.splits)

lemma remove_subscription_same:
  "remove_subscription c st msg = Inr st' \<Longrightarrow> same_challenge st st'"
  by (auto simp: remove_subscription_def same_challenge_def split: sum.splits)

lemma handle_new_challenge_signed:
  assumes "handle_new_challenge l c st msg = Done st'" "msg ''event'' = Some (JStr ''challenge'')"
  shows "\<exists>n\<in>set (nonce_of (Json msg)). signed_by l c st' n"
proof -
  from assms(1) obtain n sg where
    m: "msg ''message'' = Some (JStr n)" and g: "get_sign_challenge l c n = Inr sg"
    and s: "st' = st\<lparr>last_challenge := Some (JStr n), new_challenge := Some sg,
        challenge_ready := True\<rparr>"
    by (auto simp: handle_new_challenge_def Let_def split: option.splits json.splits sum.splits)
  have "signed_by l c st' n" by (simp add: signed_by_def s g)
  moreover have "n \<in> set (nonce_of (Json msg))" using m assms(2) by simp
  ultimately show ?thesis by blast
qed

lemma on_message_evolution:
  assumes "on_message l c st msg = Done st'"
  shows "same_challenge st st' \<or> (\<exists>n\<in>set (nonce_of (Json msg)). signed_by l c st' n)"
proof (cases "msg ''event'' = Some (JStr ''challenge'') \<and> msg ''message'' \<noteq> None")
  case True
  then have "on_message l c st msg = handle_new_challenge l c st msg"
    by (simp add: on_message_def)
  then have "handle_new_challenge l c st msg = Done st'" using assms by simp
  then show ?thesis using handle_new_challenge_signed True by blast
next
  case False
  have "\<exists>s. st' = log (Delivered msg) s \<and> same_challenge st s"
    using assms False append_subscription_same[of c st msg] remove_subscription_same[of c st msg]
      same_refl[of st]
    unfolding on_message_def
    by (auto split: option.splits if_splits sum.splits)
  then obtain s where s: "st' = log (Delivered msg) s" "same_challenge st s" by blast
  have "same_challenge st st'"
    using same_trans[OF s(2) same_log[of s "Delivered msg"]] by (simp only: s(1))
  then show ?thesis by blast
qed

lemma on_recv_evolution:
  assumes "on_recv l c st x = Pending st' \<or> on_recv l c st x = Done st'"
  shows "same_challenge st st' \<or> (\<exists>n\<in>set (nonce_of x). signed_by l c st' n)"
proof (cases x)
  case (Json msg)
  then have "on_message l c st msg = Done st'"
    using assms on_message_not_pending[of l c st msg st']
    by (auto simp: on_recv_def split: outcome.splits)
  then show ?thesis using Json on_message_evolution by blast
next
  case RecvCancelled
  then have "st' = log (Delivered cancelled_notice) st" using assms by (auto simp: on_recv_def)
  then show ?thesis using same_log by blast
qed (use assms in \<open>auto simp: on_recv_def same_refl\<close>)

lemma nonces_Cons: "nonces (x # xs) = nonce_of x @ nonces xs"
  by (simp add: nonces_def)

lemma nonces_append: "nonces (xs @ ys) = nonces xs @ nonces ys"
  by (simp add: nonces_def)

lemma run_loop_evolution:
  "run_loop l c st xs = Pending st' \<or> run_loop l c st xs = Done st' \<Longrightarrow>
   same_challenge st st' \<or> (\<exists>n\<in>set (nonces xs). signed_by l c st' n)"
proof (induction xs arbitrary: st)
  case Nil
  then show ?case by (simp add: same_refl)
next
  case (Cons x xs)
  show ?case
  proof (cases "on_recv l c st x")
    case (Pending s)
    then have r: "run_loop l c s xs = Pending st' \<or> run_loop l c s xs = Done st'"
      using Cons.prems by simp
    have a: "same_challenge st s \<or> (\<exists>n\<in>set (nonce_of x). signed_by l c s n)"
      using on_recv_evolution[of l c st x s] Pending by simp
    from Cons.IH[OF r] show ?thesis
    proof
      assume b: "same_challenge s st'"
      from a show ?thesis
      proof
        assume "same_challenge st s"
        then show ?thesis using b same_trans by blast
      next
        assume "\<exists>n\<in>set (nonce_of x). signed_by l c s n"
        then obtain n where "n \<in> set (nonce_of x)" "signed_by l c s n" by blast
        then have "n \<in> set (nonces (x # xs))" "signed_by l c st' n"
          using signed_same[OF b] by (simp_all add: nonces_Cons)
        then show ?thesis by blast
      qed
    next
      assume "\<exists>n\<in>set (nonces xs). signed_by l c st' n"
      then show ?thesis by (auto simp: nonces_Cons)
    qed
  next
    case (Done s)
    then have "s = st'" using Cons.prems by simp
    then show ?thesis
      using on_recv_evolution[of l c st x st'] Done by (auto simp: nonces_Cons)
  next
    case (Raised e s)
    then show ?thesis using Cons.prems by simp
  qed
qed

lemma receive_evolution:
  assumes "receive l c t st = (st', False)"
  shows "same_challenge st st' \<or> (\<exists>n\<in>set (nonces t). signed_by l c st' n)"
proof (cases "receiving st")
  case False
  then show ?thesis using assms by (simp add: receive_def same_refl)
next
  case True
  show ?thesis
  proof (cases "run_loop l c st t")
    case (Pending s)
    then have "s = st'" using assms True by (simp add: receive_def)
    then show ?thesis using run_loop_evolution[of l c st t st'] Pending by simp
  next
    case (Done s)
    then have e: "st' = s\<lparr>receiving := False\<rparr>" using assms True by (simp add: receive_def)
    have "same_challenge st s \<or> (\<exists>n\<in>set (nonces t). signed_by l c s n)"
      using run_loop_evolution[of l c st t s] Done by simp
    then show ?thesis unfolding e using same_receiving signed_receiving by blast
  next
    case (Raised e s)
    then show ?thesis using assms True by (simp add: receive_def)
  qed
qed

lemma sends_log: "sends (trace (log e st)) = sends (trace st) @ sent_of e"
  by (simp add: sends_def log_def)

lemma sleeps_log: "sleeps (trace (log e st)) = sleeps (trace st) @ slept_of e"
  by (simp add: sleeps_def log_def)

lemma poll_receive_done:
  "poll (receive l c) ms cond st ts = Done (st', ts') \<Longrightarrow>
     cond st' \<and> length ts' \<le> length ts
     \<and> sends (trace st') = sends (trace st)
     \<and> sleeps (trace st') = sleeps (trace st) @ replicate (length ts - length ts') ms
     \<and> socket st' = socket st
     \<and> (same_challenge st st'
         \<or> (\<exists>n\<in>set (nonces (concat (take (length ts - length ts') ts))). signed_by l c st' n))"
proof (induction ts arbitrary: st)
  case Nil
  then show ?case by (auto simp: same_refl split: if_splits)
next
  case (Cons t ts)
  show ?case
  proof (cases "cond st")
    case True
    then show ?thesis using Cons.prems by (auto simp: same_refl)
  next
    case False
    obtain s1 cancelled where r: "receive l c t (log (Slept ms) st) = (s1, cancelled)"
      by (cases "receive l c t (log (Slept ms) st)")
    have nc: "\<not> cancelled" and p: "poll (receive l c) ms cond s1 ts = Done (st', ts')"
      using Cons.prems False r by (auto split: if_splits)
    note ih = Cons.IH[OF p]
    have q: "quiet (log (Slept ms) st) s1" using receive_quiet[of "log (Slept ms) st" l c t] r by simp
    have s1: "sends (trace s1) = sends (trace st)"
      using quiet_sends[OF q] by (simp add: sends_log)
    have s2: "sleeps (trace s1) = sleeps (trace st) @ [ms]"
      using quiet_sleeps[OF q] by (simp add: sleeps_log)
    have s3: "socket s1 = socket st" using quiet_socket[OF q] by (simp add: log_def)
    have le: "length ts' \<le> length ts" using ih by simp
    then have k: "length (t # ts) - length ts' = Suc (length ts - length ts')" by simp
    have ev: "same_challenge st s1 \<or> (\<exists>n\<in>set (nonces t). signed_by l c s1 n)"
    proof -
      have "same_challenge (log (Slept ms) st) s1 \<or> (\<exists>n\<in>set (nonces t). signed_by l c s1 n)"
        using receive_evolution[of l c t "log (Slept ms) st" s1] r nc by simp
      then show ?thesis using same_trans[OF same_log[of st "Slept ms"]] by blast
    qed
    have ch: "same_challenge st st'
         \<or> (\<exists>n\<in>set (nonces (concat (take (Suc (length ts - length ts')) (t # ts)))). signed_by l c st' n)"
    proof -
      from ih have "same_challenge s1 st'
         \<or> (\<exists>n\<in>set (nonces (concat (take (length ts - length ts') ts))). signed_by l c st' n)"
        by blast
      then show ?thesis
      proof
        assume b: "same_challenge s1 st'"
        from ev show ?thesis
        proof
          assume "same_challenge st s1"
          then show ?thesis using b same_trans by blast
        next
          assume "\<exists>n\<in>set (nonces t). signed_by l c s1 n"
          then obtain n where "n \<in> set (nonces t)" "signed_by l c s1 n" by blast
          then have "n \<in> set (nonces (concat (take (Suc (length ts - length ts')) (t # ts))))"
            "signed_by l c st' n"
            using signed_same[OF b] by (simp_all add: nonces_append)
          then show ?thesis by blast
        qed
      next
        assume "\<exists>n\<in>set (nonces (concat (take (length ts - length ts') ts))). signed_by l c st' n"
        then show ?thesis by (auto simp: nonces_append)
      qed
    qed
    have sl: "sleeps (trace st') = sleeps (trace st) @ replicate (Suc (length ts - length ts')) ms"
      using ih s2 by simp
    show ?thesis
      unfolding k using ih s1 s3 ch sl le by simp
  qed
qed


lemma send_private_ready:
  "is_auth c \<Longrightarrow> socket st \<Longrightarrow> challenge_ready st \<Longrightarrow>
   send_message bg c st msg True ts = Done (log (Sent (with_challenge c st msg)) st, ts)"
  by (simp add: send_message_def poll_ready)


lemma with_challenge_log: "with_challenge c (log e st) msg = with_challenge c st msg"
  by (simp add: with_challenge_def log_def)

lemma signed_log: "signed_by l c (log e st) n = signed_by l c st n"
  by (simp add: signed_by_def log_def)





lemma feed_msgs_log_sent:
  "feed_msgs (trace (log (Sent m) st)) =
     feed_msgs (trace st) @ (if m ''feed'' \<noteq> None then [m] else [])"
  by (simp add: feed_msgs_def sends_log)

lemma challenge_request_no_feed: "challenge_request c ''feed'' = None"
  by (simp add: challenge_request_def)

lemma with_challenge_feed: "with_challenge c st msg ''feed'' = msg ''feed''"
  by (simp add: with_challenge_def)

lemma send_message_after_socket:
  "poll bg 400 socket st ts = Done (st1, ts1) \<Longrightarrow>
   send_message bg c st msg private ts =
     (if private then
        if \<not> is_auth c then Raised ValueError (st1, ts1)
        else if challenge_ready st1
          then Done (log (Sent (with_challenge c st1 msg)) st1, ts1)
          else (case poll bg 200 challenge_ready (log (Sent (challenge_request c)) st1) ts1 of
                  Done (st2, ts2) \<Rightarrow> Done (log (Sent (with_challenge c st2 msg)) st2, ts2)
                | Raised e x \<Rightarrow> Raised e x
                | Pending x \<Rightarrow> Pending x)
      else Done (log (Sent msg) st1, ts1))"
  by (simp add: send_message_def check_challenge_ready_def split: outcome.splits)

lemma send_message_done_socket:
  assumes "send_message bg c st msg private ts = Done (st', ts')"
  shows "\<exists>st1 ts1. poll bg 400 socket st ts = Done (st1, ts1)"
proof (cases "poll bg 400 socket st ts")
  case (Done x)
  then show ?thesis by (cases x) simp
next
  case (Raised e x)
  then show ?thesis using assms by (simp add: send_message_def)
next
  case (Pending x)
  then show ?thesis using assms by (simp add: send_message_def)
qed

lemma send_message_done:
  assumes d: "send_message (receive l c) c st msg private ts = Done (st', ts')"
    and f: "msg ''feed'' \<noteq> None"
  shows "\<exists>m. feed_msgs (trace st') = feed_msgs (trace st) @ [m]
     \<and> (if private then (\<exists>st2. m = with_challenge c st2 msg) else m = msg)"
proof -
  from send_message_done_socket[OF d] obtain st1 ts1 where
    p: "poll (receive l c) 400 socket st ts = Done (st1, ts1)" by blast
  note u = send_message_after_socket[OF p, of c msg "private"]
  have s1: "feed_msgs (trace st1) = feed_msgs (trace st)"
    using poll_receive_done[OF p] by (simp add: feed_msgs_def)
  show ?thesis
  proof (cases "private")
    case False
    then have "st' = log (Sent msg) st1" using d unfolding u by simp
    then have "feed_msgs (trace st') = feed_msgs (trace st) @ [msg]"
      using f s1 by (simp add: feed_msgs_log_sent)
    then show ?thesis using False by simp
  next
    case True
    have a: "is_auth c"
    proof (rule ccontr)
      assume "\<not> is_auth c"
      then show False using d True unfolding u by simp
    qed
    show ?thesis
    proof (cases "challenge_ready st1")
      case r: True
      then have "st' = log (Sent (with_challenge c st1 msg)) st1"
        using d True a unfolding u by simp
      then have "feed_msgs (trace st') = feed_msgs (trace st) @ [with_challenge c st1 msg]"
        using f s1 by (simp add: feed_msgs_log_sent with_challenge_feed)
      then show ?thesis using True by auto
    next
      case r: False
      let ?st0 = "log (Sent (challenge_request c)) st1"
      have d': "(case poll (receive l c) 200 challenge_ready ?st0 ts1 of
                  Done (st2, ts2) \<Rightarrow> Done (log (Sent (with_challenge c st2 msg)) st2, ts2)
                | Raised e x \<Rightarrow> Raised e x
                | Pending x \<Rightarrow> Pending x) = Done (st', ts')"
        using d True a r unfolding u by simp
      obtain st2 where
        q: "poll (receive l c) 200 challenge_ready ?st0 ts1 = Done (st2, ts')"
        and e: "st' = log (Sent (with_challenge c st2 msg)) st2"
      proof (cases "poll (receive l c) 200 challenge_ready ?st0 ts1")
        case (Done x)
        obtain a b where x: "x = (a, b)" by (cases x)
        show ?thesis using d' Done x that[of a] by simp
      next
        case (Raised e x)
        then show ?thesis using d' by simp
      next
        case (Pending x)
        then show ?thesis using d' by simp
      qed
      have "feed_msgs (trace st2) = feed_msgs (trace ?st0)"
        using poll_receive_done[OF q] by (simp add: feed_msgs_def)
      then have "feed_msgs (trace st2) = feed_msgs (trace st)"
        by (simp add: feed_msgs_log_sent challenge_request_no_feed s1)
      then have "feed_msgs (trace st') = feed_msgs (trace st) @ [with_challenge c st2 msg]"
        using f by (simp add: e feed_msgs_log_sent with_challenge_feed)
      then show ?thesis using True by auto
    qed
  qed
qed

lemma drop_auth_with_challenge: "drop_auth (with_challenge c st msg) = drop_auth msg"
  by (rule ext) (simp add: with_challenge_def drop_auth_def)

lemma resent_private:
  "sub ''feed'' = Some f \<Longrightarrow> in_catalog f (private_feeds c) \<Longrightarrow>
   resent c sub (with_challenge c st2 sub)"
  by (simp add: resent_def drop_auth_with_challenge) (simp add: with_challenge_def)

lemma resent_public:
  "sub ''feed'' = Some f \<Longrightarrow> \<not> in_catalog f (private_feeds c) \<Longrightarrow> resent c sub sub"
  by (simp add: resent_def)

lemma recover_loop_resends:
  assumes "\<forall>sub\<in>set subs. \<exists>f. sub ''feed'' = Some f
      \<and> (in_catalog f (private_feeds c) \<or> in_catalog f (public_feeds c))"
    and "recover_loop (receive l c) c st subs ts = Done (st', ts')"
  shows "\<exists>ms. feed_msgs (trace st') = feed_msgs (trace st) @ ms \<and> list_all2 (resent c) subs ms"
  using assms
proof (induction subs arbitrary: st ts)
  case Nil
  then show ?case by simp
next
  case (Cons sub subs)
  from Cons.prems(1) obtain f where f: "sub ''feed'' = Some f"
    and cat: "in_catalog f (private_feeds c) \<or> in_catalog f (public_feeds c)" by auto
  have rest: "\<forall>sub\<in>set subs. \<exists>f. sub ''feed'' = Some f
      \<and> (in_catalog f (private_feeds c) \<or> in_catalog f (public_feeds c))"
    using Cons.prems(1) by simp
  have nf: "sub ''feed'' \<noteq> None" using f by simp
  show ?case
  proof (cases "in_catalog f (private_feeds c)")
    case True
    from Cons.prems(2) f True obtain s1 t1 where
      a: "send_message (receive l c) c st sub True ts = Done (s1, t1)"
      and b: "recover_loop (receive l c) c s1 subs t1 = Done (st', ts')"
      by (auto split: outcome.splits)
    from send_message_done[OF a nf] obtain m st2 where
      m: "feed_msgs (trace s1) = feed_msgs (trace st) @ [m]" "m = with_challenge c st2 sub"
      by auto
    from Cons.IH[OF rest b] obtain ms where
      ms: "feed_msgs (trace st') = feed_msgs (trace s1) @ ms" "list_all2 (resent c) subs ms"
      by blast
    have "resent c sub m" unfolding m(2) by (rule resent_private[of sub f c, OF f True])
    then have "feed_msgs (trace st') = feed_msgs (trace st) @ (m # ms)
        \<and> list_all2 (resent c) (sub # subs) (m # ms)"
      using m(1) ms by simp
    then show ?thesis by blast
  next
    case False
    then have pub: "in_catalog f (public_feeds c)" using cat by blast
    from Cons.prems(2) f False pub obtain s1 t1 where
      a: "send_message (receive l c) c st sub False ts = Done (s1, t1)"
      and b: "recover_loop (receive l c) c s1 subs t1 = Done (st', ts')"
      by (auto split: outcome.splits)
    from send_message_done[OF a nf] have
      m: "feed_msgs (trace s1) = feed_msgs (trace st) @ [sub]" by auto
    from Cons.IH[OF rest b] obtain ms where
      ms: "feed_msgs (trace st') = feed_msgs (trace s1) @ ms" "list_all2 (resent c) subs ms"
      by blast
    have "resent c sub sub" by (rule resent_public[of sub f c, OF f False])
    then have "feed_msgs (trace st') = feed_msgs (trace st) @ (sub # ms)
        \<and> list_all2 (resent c) (sub # subs) (sub # ms)"
      using m ms by simp
    then show ?thesis by blast
  qed
qed

lemma reconnect_refused_sends:
  assumes "link sc = Refused"
  shows "sends (trace (state_of (reconnect l c st0 (Some sc)))) = sends (trace st0)"
  using assms
  by (simp add: reconnect_def Let_def state_of_def sends_log run_begin_def)

text \<open>
  C6, as the code has it. When every registry entry carries a feed of the private or
  the public catalog and the replay returns, the frames with a feed written during the
  replay are the re-sends of the registry entries, one for each entry and in registry
  order, each through the private path when its feed is in the private catalog and
  through the public path otherwise. When the connection is refused the open signal
  never fires and nothing is written.
\<close>

theorem replay_resends_registry_in_order:
  "(\<forall>st' ts'.
      (\<forall>sub\<in>set (subscriptions st). \<exists>f. sub ''feed'' = Some f
          \<and> (in_catalog f (private_feeds c) \<or> in_catalog f (public_feeds c)))
      \<and> recover_subscription_req_msg (receive l c) c st ts = Done (st', ts') \<longrightarrow>
      (\<exists>ms. feed_msgs (trace st') = feed_msgs (trace st) @ ms
         \<and> list_all2 (resent c) (subscriptions st) ms))
   \<and> (\<forall>sc. link sc = Refused \<longrightarrow>
         sends (trace (state_of (reconnect l c st (Some sc)))) = sends (trace st))"
proof (intro conjI allI impI)
  fix st' ts'
  assume h: "(\<forall>sub\<in>set (subscriptions st). \<exists>f. sub ''feed'' = Some f
          \<and> (in_catalog f (private_feeds c) \<or> in_catalog f (public_feeds c)))
      \<and> recover_subscription_req_msg (receive l c) c st ts = Done (st', ts')"
  then have d: "recover_loop (receive l c) c st (subscriptions st) ts = Done (st', ts')"
    by (simp add: recover_subscription_req_msg_def)
  from h have r: "\<forall>sub\<in>set (subscriptions st). \<exists>f. sub ''feed'' = Some f
          \<and> (in_catalog f (private_feeds c) \<or> in_catalog f (public_feeds c))" by (rule conjunct1)
  show "\<exists>ms. feed_msgs (trace st') = feed_msgs (trace st) @ ms
         \<and> list_all2 (resent c) (subscriptions st) ms"
    by (rule recover_loop_resends[OF r d])
next
  fix sc :: script
  assume "link sc = Refused"
  then show "sends (trace (state_of (reconnect l c st (Some sc)))) = sends (trace st)"
    by (rule reconnect_refused_sends)
qed

lemma fixture_feeds:
  "ticker_sub ''feed'' = Some (JStr ''ticker'')" "fills_sub ''feed'' = Some (JStr ''fills'')"
  "book_sub ''feed'' = Some (JStr ''book'')"
  by (simp_all add: ticker_sub_def fills_sub_def book_sub_def)

lemma c0_catalogs:
  "in_catalog (JStr ''fills'') (private_feeds c0)" "\<not> in_catalog (JStr ''ticker'') (private_feeds c0)"
  "in_catalog (JStr ''ticker'') (public_feeds c0)" "\<not> in_catalog (JStr ''book'') (private_feeds c0)"
  "\<not> in_catalog (JStr ''book'') (public_feeds c0)" "is_auth c0" "key c0 = ''k''"
  by (simp_all add: in_catalog_def c0_def)

lemma replay_example:
  "recover_subscription_req_msg (receive lib0 c0) c0 replay_conn [] = Done (replayed, [])"
proof -
  have s: "socket replay_conn" "challenge_ready replay_conn"
    "subscriptions replay_conn = [ticker_sub, fills_sub]"
    by (simp_all add: replay_conn_def open_conn_def)
  have 1: "send_message (receive lib0 c0) c0 replay_conn ticker_sub False []
      = Done (log (Sent ticker_sub) replay_conn, [])"
    by (simp add: send_message_def s)
  have s': "socket (log (Sent ticker_sub) replay_conn)"
    "challenge_ready (log (Sent ticker_sub) replay_conn)"
    by (simp_all add: log_def s)
  have w: "with_challenge c0 (log (Sent ticker_sub) replay_conn) fills_sub = signed_send"
    by (simp add: with_challenge_log)
       (simp add: with_challenge_def json_of_def signed_send_def c0_catalogs replay_conn_def)
  have 2: "send_message (receive lib0 c0) c0 (log (Sent ticker_sub) replay_conn) fills_sub True []
      = Done (replayed, [])"
    by (simp add: send_private_ready[OF c0_catalogs(6) s'] w replayed_def)
  show ?thesis
    by (simp add: recover_subscription_req_msg_def s fixture_feeds c0_catalogs 1 2)
qed

theorem replay_resends_registry_in_order_witness:
  "recover_subscription_req_msg (receive lib0 c0) c0 replay_conn [] = Done (replayed, [])
   \<and> subscriptions replay_conn = [ticker_sub, fills_sub]
   \<and> feed_msgs (trace replayed) = [ticker_sub, signed_send]
   \<and> list_all2 (resent c0) (subscriptions replay_conn) [ticker_sub, signed_send]
   \<and> link refused = Refused
   \<and> sends (trace (state_of (reconnect lib0 c0 replay_conn (Some refused)))) = []"
proof -
  have s: "subscriptions replay_conn = [ticker_sub, fills_sub]"
    by (simp add: replay_conn_def)
  have r: "\<forall>sub\<in>set (subscriptions replay_conn). \<exists>f. sub ''feed'' = Some f
          \<and> (in_catalog f (private_feeds c0) \<or> in_catalog f (public_feeds c0))"
    by (simp add: s fixture_feeds c0_catalogs)
  have t0: "sends (trace replay_conn) = []"
    by (simp add: replay_conn_def open_conn_def init_def sends_def)
  have f0: "feed_msgs (trace replay_conn) = []" by (simp add: feed_msgs_def t0)
  have sf: "signed_send ''feed'' \<noteq> None" by (simp add: signed_send_def fixture_feeds)
  have f1: "feed_msgs (trace replayed) = [ticker_sub, signed_send]"
    by (simp add: replayed_def feed_msgs_log_sent f0 fixture_feeds sf)
  have lr: "link refused = Refused" by (simp add: refused_def)
  note T = replay_resends_registry_in_order[of replay_conn c0 lib0 "[]"]
  from T r replay_example
  have "\<exists>ms. feed_msgs (trace replayed) = feed_msgs (trace replay_conn) @ ms
         \<and> list_all2 (resent c0) (subscriptions replay_conn) ms" by blast
  then have 1: "list_all2 (resent c0) (subscriptions replay_conn) [ticker_sub, signed_send]"
    by (simp add: f0 f1)
  from T lr have 2: "sends (trace (state_of (reconnect lib0 c0 replay_conn (Some refused)))) = []"
    by (simp add: t0)
  show ?thesis using replay_example s f1 1 lr 2 by (intro conjI)
qed

lemma build_fills_anon: "build_subscription anon fills_ack = Inr fills_sub"
  by (simp add: build_subscription_def anon_def fills_ack_def fills_sub_def in_catalog_def)

theorem replay_skips_or_aborts:
  "subscriptions anon_conn = [fills_sub]
   \<and> recover_subscription_req_msg (receive lib0 anon) anon anon_conn []
       = Raised ValueError (anon_conn, [])
   \<and> subscriptions book_conn = [book_sub]
   \<and> recover_subscription_req_msg (receive lib0 c0) c0 book_conn [] = Done (book_conn, [])"
proof -
  have a: "anon_conn = init\<lparr>subscriptions := [fills_sub], socket := True, receiving := True\<rparr>"
    by (simp add: anon_conn_def apply_acks_def apply_ack_def
        append_subscription_eq[OF build_fills_anon] init_def)
  have 1: "subscriptions anon_conn = [fills_sub]" by (simp add: a)
  have p: "in_catalog (JStr ''fills'') (private_feeds anon)" "\<not> is_auth anon"
    by (simp_all add: in_catalog_def anon_def)
  have sk: "socket anon_conn" by (simp add: a)
  have 2: "recover_subscription_req_msg (receive lib0 anon) anon anon_conn []
       = Raised ValueError (anon_conn, [])"
    by (simp add: recover_subscription_req_msg_def 1 fixture_feeds p send_message_def sk)
  have 3: "subscriptions book_conn = [book_sub]" by (simp add: book_conn_def)
  have 4: "recover_subscription_req_msg (receive lib0 c0) c0 book_conn [] = Done (book_conn, [])"
    by (simp add: recover_subscription_req_msg_def 3 fixture_feeds c0_catalogs)
  show ?thesis using 1 2 3 4 by (intro conjI)
qed

section \<open>A malformed acknowledgement ends the attempt\<close>









end
